theory Spec2Isabelle
  imports Main "HOL-Library.List_Lexorder" "HOL-Library.Char_ord" "HOL-Library.Multiset"
begin

section \<open>Wiki-link parser (core/link/parser.ts)\<close>

text \<open>
  Text is a list of code units. Every \<^typ>\<open>char\<close> stands for one code unit of the
  source string, so \<^const>\<open>length\<close> and all offsets count what the source's
  \<^verbatim>\<open>string.length\<close> and \<^verbatim>\<open>match.index\<close> count; the development covers texts whose
  code units are below 256.
\<close>

record WikiLink =
  raw :: string
  target :: string
  displayText :: "string option"
  startIndex :: nat
  endIndex :: nat
  line :: "nat option"

subsection \<open>Character classes and \<^verbatim>\<open>String.prototype.trim\<close>\<close>

definition is_space :: "char \<Rightarrow> bool" where
  \<comment> \<open>white space and line terminators stripped by \<^verbatim>\<open>trim()\<close>, among code units below 256:
      TAB, LF, VT, FF, CR, SP, NBSP\<close>
  "is_space c = (of_char c \<in> {9, 10, 11, 12, 13, 32, 160 :: nat})"

definition trim :: "string \<Rightarrow> string" where
  "trim s = rev (dropWhile is_space (rev (dropWhile is_space s)))"

definition target_char :: "char \<Rightarrow> bool" where
  \<comment> \<open>the class \<^verbatim>\<open>[^\]|]\<close>\<close>
  "target_char c = (c \<noteq> CHR '']'' \<and> c \<noteq> CHR ''|'')"

definition display_char :: "char \<Rightarrow> bool" where
  \<comment> \<open>the class \<^verbatim>\<open>[^\]]\<close>\<close>
  "display_char c = (c \<noteq> CHR '']'')"

subsection \<open>The regular expression, as a backtracking matcher\<close>

text \<open>
  \<^verbatim>\<open>WIKI_LINK_REGEX = /\[\[([^\]|]+)(?:\|([^\]]+))?\]\]/g\<close>

  Each piece of the pattern maps the remaining input to the list of ways it can match
  there, in the order in which the backtracking matcher tries them; the match found at a
  position is the first element of the list for the whole pattern.
\<close>

definition lit :: "string \<Rightarrow> string \<Rightarrow> string list" where
  \<comment> \<open>a literal: one way to match, or none\<close>
  "lit p s = (if take (length p) s = p then [drop (length p) s] else [])"

definition cls_plus :: "(char \<Rightarrow> bool) \<Rightarrow> string \<Rightarrow> (string \<times> string) list" where
  \<comment> \<open>a greedy \<^verbatim>\<open>[...]+\<close>: the longest run first, then ever shorter ones down to one
      character\<close>
  "cls_plus P s =
     map (\<lambda>k. (take k s, drop k s)) (rev [1 ..< Suc (length (takeWhile P s))])"

definition opt_display :: "string \<Rightarrow> (string option \<times> string) list" where
  \<comment> \<open>\<^verbatim>\<open>(?:\|([^\]]+))?\<close>: greedy, so taking the group is tried before skipping it\<close>
  "opt_display s =
     concat (map (\<lambda>s1. map (\<lambda>(d, s2). (Some d, s2)) (cls_plus display_char s1))
                 (lit ''|'' s))
     @ [(None, s)]"

definition wiki_alts :: "string \<Rightarrow> (string \<times> string option \<times> string) list" where
  \<comment> \<open>the whole pattern: group 1, group 2 (if it took part) and the input left over\<close>
  "wiki_alts s =
     concat (map (\<lambda>s1.
       concat (map (\<lambda>(t, s2).
         concat (map (\<lambda>(d, s3).
           map (\<lambda>s4. (t, d, s4)) (lit '']]'' s3))
           (opt_display s2)))
         (cls_plus target_char s1)))
       (lit ''[['' s))"

record rx_match =
  m_index :: nat
  m_text :: string
  m_group1 :: string
  m_group2 :: "string option"

definition match_here :: "string \<Rightarrow> (string \<times> string \<times> string option \<times> string) option" where
  \<comment> \<open>the match starting exactly here: matched text, groups, rest of the input\<close>
  "match_here s =
     (case wiki_alts s of
        [] \<Rightarrow> None
      | (t, d, rest) # _ \<Rightarrow> Some (take (length s - length rest) s, t, d, rest))"

fun exec_from :: "string \<Rightarrow> nat \<Rightarrow> (rx_match \<times> string) option" where
  \<comment> \<open>\<^verbatim>\<open>regex.exec\<close> on the input from \<^verbatim>\<open>lastIndex\<close> on: the leftmost start position that
      matches; the second component is the input after the match (at the new
      \<^verbatim>\<open>lastIndex\<close>)\<close>
  "exec_from [] i =
     (case match_here [] of
        Some (r, t, d, rest) \<Rightarrow>
          Some (\<lparr>m_index = i, m_text = r, m_group1 = t, m_group2 = d\<rparr>, rest)
      | None \<Rightarrow> None)"
| "exec_from (c # cs) i =
     (case match_here (c # cs) of
        Some (r, t, d, rest) \<Rightarrow>
          Some (\<lparr>m_index = i, m_text = r, m_group1 = t, m_group2 = d\<rparr>, rest)
      | None \<Rightarrow> exec_from cs (Suc i))"


lemma lit_rest_length: "r \<in> set (lit p s) \<Longrightarrow> length r + length p = length s"
proof -
  assume a: "r \<in> set (lit p s)"
  then have t: "take (length p) s = p" and r: "r = drop (length p) s"
    by (auto simp: lit_def split: if_splits)
  from t have "length p \<le> length s"
    by (metis length_take min.cobounded1)
  with r show ?thesis by simp
qed

lemma cls_plus_rest_length: "(t, r) \<in> set (cls_plus P s) \<Longrightarrow> length r \<le> length s"
  by (auto simp: cls_plus_def)

lemma opt_display_rest_length:
  assumes "(d, r) \<in> set (opt_display s)"
  shows "length r \<le> length s"
proof (cases d)
  case None
  with assms show ?thesis by (auto simp: opt_display_def)
next
  case (Some x)
  with assms obtain s1 where a: "s1 \<in> set (lit ''|'' s)" and b: "(x, r) \<in> set (cls_plus display_char s1)"
    by (auto simp: opt_display_def)
  from lit_rest_length[OF a] cls_plus_rest_length[OF b] show ?thesis by simp
qed

lemma wiki_alts_rest_length:
  assumes "(t, d, r) \<in> set (wiki_alts s)"
  shows "length r < length s"
proof -
  from assms obtain s1 s2 s3 where
    a: "s1 \<in> set (lit ''[['' s)" and b: "(t, s2) \<in> set (cls_plus target_char s1)"
    and c: "(d, s3) \<in> set (opt_display s2)" and e: "r \<in> set (lit '']]'' s3)"
    by (auto simp: wiki_alts_def)
  from lit_rest_length[OF a] cls_plus_rest_length[OF b] opt_display_rest_length[OF c]
    lit_rest_length[OF e]
  show ?thesis by simp
qed

lemma match_here_rest_length:
  assumes "match_here s = Some (r, t, d, rest)"
  shows "length rest < length s"
proof -
  from assms obtain ms where "wiki_alts s = (t, d, rest) # ms"
    by (auto simp: match_here_def split: list.splits)
  then have "(t, d, rest) \<in> set (wiki_alts s)" by simp
  then show ?thesis by (rule wiki_alts_rest_length)
qed

lemma exec_from_rest_length:
  "exec_from s i = Some (m, rest) \<Longrightarrow> length rest < length s"
proof (induction s arbitrary: i)
  case Nil
  then show ?case
    by (auto split: option.splits dest: match_here_rest_length)
next
  case (Cons c cs)
  show ?case
  proof (cases "match_here (c # cs)")
    case None
    with Cons.prems have "exec_from cs (Suc i) = Some (m, rest)" by simp
    from Cons.IH[OF this] show ?thesis by simp
  next
    case (Some q)
    then obtain r t d rest' where q: "match_here (c # cs) = Some (r, t, d, rest')"
      by (cases q) auto
    with Cons.prems have "rest' = rest" by simp
    with match_here_rest_length[OF q] show ?thesis by simp
  qed
qed

function exec_all :: "string \<Rightarrow> nat \<Rightarrow> rx_match list" where
  \<comment> \<open>\<^verbatim>\<open>while ((match = WIKI_LINK_REGEX.exec(line)) !== null)\<close>, started with
      \<^verbatim>\<open>lastIndex = 0\<close>: every call resumes where the previous match ended\<close>
  "exec_all s i =
     (case exec_from s i of
        None \<Rightarrow> []
      | Some (m, rest) \<Rightarrow> m # exec_all rest (m_index m + length (m_text m)))"
  by pat_completeness auto
termination
  by (relation "measure (\<lambda>(s, i). length s)") (auto dest: exec_from_rest_length)

fun split_nl :: "string \<Rightarrow> string list" where
  \<comment> \<open>\<^verbatim>\<open>content.split("\n")\<close>: the empty text has one (empty) line\<close>
  "split_nl [] = [[]]"
| "split_nl (c # cs) =
     (if c = CHR 0x0A then [] # split_nl cs
      else (case split_nl cs of l # ls \<Rightarrow> (c # l) # ls | [] \<Rightarrow> [[c]]))"

definition mk_link :: "nat \<Rightarrow> nat \<Rightarrow> rx_match \<Rightarrow> WikiLink" where
  \<comment> \<open>the body of the \<^verbatim>\<open>while\<close> loop: one link from one match on line number
      \<open>lineNumber\<close> (0-based) whose first character is at \<open>lineStart\<close>\<close>
  "mk_link lineNumber lineStart m =
     \<lparr>raw = m_text m,
      target = trim (m_group1 m),
      displayText = map_option trim (m_group2 m),
      startIndex = lineStart + m_index m,
      endIndex = lineStart + m_index m + length (m_text m),
      line = Some (lineNumber + 1)\<rparr>"

fun extract_lines :: "string list \<Rightarrow> nat \<Rightarrow> nat \<Rightarrow> WikiLink list" where
  \<comment> \<open>the \<^verbatim>\<open>for\<close> loop over the lines, with \<open>lineNumber\<close> and \<open>currentIndex\<close>\<close>
  "extract_lines [] lineNumber currentIndex = []"
| "extract_lines (l # ls) lineNumber currentIndex =
     map (mk_link lineNumber currentIndex) (exec_all l 0)
     @ extract_lines ls (lineNumber + 1) (currentIndex + length l + 1)"

definition extractWikiLinks :: "string \<Rightarrow> WikiLink list" where
  "extractWikiLinks content = extract_lines (split_nl content) 0 0"

definition parseWikiLink :: "string \<Rightarrow> WikiLink option" where
  "parseWikiLink linkText =
     (case exec_from linkText 0 of
        None \<Rightarrow> None
      | Some (m, rest) \<Rightarrow>
          Some \<lparr>raw = m_text m,
                target = trim (m_group1 m),
                displayText = map_option trim (m_group2 m),
                startIndex = 0,
                endIndex = length (m_text m),
                line = None\<rparr>)"

definition isValidWikiLink :: "string \<Rightarrow> bool" where
  \<comment> \<open>\<^verbatim>\<open>match?.[0] === text\<close>\<close>
  "isValidWikiLink text =
     (case exec_from text 0 of None \<Rightarrow> False | Some (m, rest) \<Rightarrow> m_text m = text)"

definition createWikiLink :: "string \<Rightarrow> string option \<Rightarrow> string" where
  \<comment> \<open>\<^verbatim>\<open>if (displayText)\<close>: an absent argument and the empty string are both falsy\<close>
  "createWikiLink tgt disp =
     (case disp of
        None \<Rightarrow> ''[['' @ tgt @ '']]''
      | Some d \<Rightarrow> if d \<noteq> [] then ''[['' @ tgt @ ''|'' @ d @ '']]'' else ''[['' @ tgt @ '']]'')"

definition link_text :: "string \<Rightarrow> string option \<Rightarrow> string" where
  \<comment> \<open>the text matched by the pattern when its groups are \<open>t\<close> and \<open>d\<close>\<close>
  "link_text t d = ''[['' @ t @ (case d of None \<Rightarrow> [] | Some x \<Rightarrow> ''|'' @ x) @ '']]''"

definition newline :: char where
  "newline = CHR 0x0A"

fun join_nl :: "string list \<Rightarrow> string" where
  \<comment> \<open>the inverse of \<^const>\<open>split_nl\<close>: \<^verbatim>\<open>lines.join("\n")\<close>\<close>
  "join_nl [] = []"
| "join_nl [l] = l"
| "join_nl (l # ls) = l @ newline # join_nl ls"

definition newlines_before :: "nat \<Rightarrow> string \<Rightarrow> nat" where
  \<comment> \<open>the number of newlines among the first \<open>n\<close> characters\<close>
  "newlines_before n s = length (filter (\<lambda>c. c = newline) (take n s))"

definition substring :: "string \<Rightarrow> nat \<Rightarrow> nat \<Rightarrow> string" where
  \<comment> \<open>\<^verbatim>\<open>s.substring(a, b)\<close> for \<open>a \<le> b\<close>\<close>
  "substring s a b = take (b - a) (drop a s)"

section \<open>Link resolver (core/link/resolver.ts)\<close>

record ResolvedLink =
  link :: WikiLink
  resolvedPath :: "string option"
  exists :: bool
  suggestions :: "string list option"

subsection \<open>The file system and the library functions\<close>

datatype dir_listing =
    Absent                 \<comment> \<open>\<^verbatim>\<open>fileExists(dir)\<close> is false\<close>
  | Listing "string list"  \<comment> \<open>the paths \<^verbatim>\<open>listFilesRecursive(dir, ".md")\<close> returns\<close>
  | Unreadable             \<comment> \<open>\<^verbatim>\<open>listFilesRecursive\<close> throws\<close>

record corpus =
  notesDir :: dir_listing
  blogDir :: dir_listing
  dailyDir :: dir_listing
  fileExists :: "string \<Rightarrow> bool"
  joinDaily :: "string \<Rightarrow> string \<Rightarrow> string \<Rightarrow> string"
    \<comment> \<open>\<^verbatim>\<open>join(pkmRoot, "daily", year, month, `${day}.md`)\<close>\<close>
  basenameMd :: "string \<Rightarrow> string"
    \<comment> \<open>\<^verbatim>\<open>basename(file, ".md")\<close> of the path library\<close>
  slugify :: "string \<Rightarrow> string"
    \<comment> \<open>\<^verbatim>\<open>slugify\<close> of utils/slug, whose source is not part of the development\<close>

fun push_listing :: "dir_listing \<Rightarrow> string list \<Rightarrow> (string list \<Rightarrow> string list) \<Rightarrow> string list" where
  \<comment> \<open>one \<^verbatim>\<open>if (fileExists(dir)) files.push(...listFilesRecursive(dir, ".md"))\<close> inside the
      \<^verbatim>\<open>try\<close>: an exception ends the block with the files pushed so far\<close>
  "push_listing Absent files continue = continue files"
| "push_listing (Listing fs) files continue = continue (files @ fs)"
| "push_listing Unreadable files continue = files"

definition getAllMarkdownFiles :: "'a corpus_scheme \<Rightarrow> string list" where
  "getAllMarkdownFiles env =
     push_listing (notesDir env) [] (\<lambda>files.
       push_listing (blogDir env) files (\<lambda>files.
         push_listing (dailyDir env) files (\<lambda>files. files)))"

subsection \<open>\<^verbatim>\<open>toLowerCase\<close> and the date patterns\<close>

definition toLowerChar :: "char \<Rightarrow> char" where
  \<comment> \<open>code units below 256: A-Z and the capital letters U+00C0 to U+00DE (without the
      multiplication sign U+00D7) move up by 32\<close>
  "toLowerChar c =
     (let n = of_char c :: nat
      in if (65 \<le> n \<and> n \<le> 90) \<or> (192 \<le> n \<and> n \<le> 222 \<and> n \<noteq> 215)
         then char_of (n + 32) else c)"

definition toLowerCase :: "string \<Rightarrow> string" where
  "toLowerCase s = map toLowerChar s"

definition is_digit :: "char \<Rightarrow> bool" where
  "is_digit c = (CHR ''0'' \<le> c \<and> c \<le> CHR ''9'')"

definition date_parts :: "string option \<Rightarrow> string \<Rightarrow> (string \<times> string \<times> string) option" where
  \<comment> \<open>\<^verbatim>\<open>target.match(/^(\d{4})SEP(\d{2})SEP(\d{2})$/)\<close> for a separator \<open>sep\<close>
      (\<open>None\<close>: no separator): year, month and day\<close>
  "date_parts sep t =
     (let k = (case sep of None \<Rightarrow> 0 | Some s \<Rightarrow> length s);
          y = take 4 t; s1 = take k (drop 4 t);
          m = take 2 (drop (4 + k) t); s2 = take k (drop (6 + k) t);
          d = take 2 (drop (6 + 2 * k) t)
      in if length t = 8 + 2 * k \<and> list_all is_digit y \<and> list_all is_digit m
            \<and> list_all is_digit d
            \<and> (case sep of None \<Rightarrow> True | Some s \<Rightarrow> s1 = s \<and> s2 = s)
         then Some (y, m, d) else None)"

definition datePatterns :: "string option list" where
  \<comment> \<open>YYYY-MM-DD, YYYY/MM/DD, YYYYMMDD\<close>
  "datePatterns = [Some ''-'', Some ''/'', None]"

fun findDailyNote_loop :: "'a corpus_scheme \<Rightarrow> string \<Rightarrow> string option list \<Rightarrow> string option" where
  "findDailyNote_loop env t [] = None"
| "findDailyNote_loop env t (p # ps) =
     (case date_parts p t of
        Some (year, month, day) \<Rightarrow>
          (if fileExists env (joinDaily env year month day)
           then Some (joinDaily env year month day)
           else findDailyNote_loop env t ps)
      | None \<Rightarrow> findDailyNote_loop env t ps)"

definition findDailyNote :: "'a corpus_scheme \<Rightarrow> string \<Rightarrow> string option" where
  "findDailyNote env t = findDailyNote_loop env t datePatterns"

definition truthy :: "string option \<Rightarrow> bool" where
  \<comment> \<open>\<^verbatim>\<open>if (x)\<close> for \<open>x\<close> a string, \<^verbatim>\<open>undefined\<close> or \<^verbatim>\<open>null\<close>: the empty string is falsy\<close>
  "truthy x = (case x of None \<Rightarrow> False | Some s \<Rightarrow> s \<noteq> [])"

definition findNoteByLink :: "'a corpus_scheme \<Rightarrow> string \<Rightarrow> string option" where
  "findNoteByLink env t =
     (let allFiles = getAllMarkdownFiles env;
          exactMatch = find (\<lambda>file. basenameMd env file = t) allFiles
      in if truthy exactMatch then exactMatch
         else
           let lowerTarget = toLowerCase t;
               caseInsensitiveMatch =
                 find (\<lambda>file. toLowerCase (basenameMd env file) = lowerTarget) allFiles
           in if truthy caseInsensitiveMatch then caseInsensitiveMatch
              else
                let slugifiedTarget = slugify env t;
                    slugifiedMatch =
                      find (\<lambda>file. basenameMd env file = slugifiedTarget
                                    \<or> toLowerCase (basenameMd env file) = slugifiedTarget)
                        allFiles
                in if truthy slugifiedMatch then slugifiedMatch
                   else
                     let dailyMatch = findDailyNote env t
                     in if truthy dailyMatch then dailyMatch else None)"

subsection \<open>Edit distance\<close>

definition put :: "'a list \<Rightarrow> nat \<Rightarrow> 'a \<Rightarrow> 'a list" where
  \<comment> \<open>the array assignment \<^verbatim>\<open>xs[j] = v\<close> for \<open>j\<close> up to the length of the array: an
      assignment at the length appends\<close>
  "put xs j v = (if j < length xs then xs[j := v] else xs @ [v])"

definition put2 :: "'a list list \<Rightarrow> nat \<Rightarrow> nat \<Rightarrow> 'a \<Rightarrow> 'a list list" where
  \<comment> \<open>\<^verbatim>\<open>matrix[i][j] = v\<close>\<close>
  "put2 m i j v = m[i := put (m ! i) j v]"

definition lev_cell :: "string \<Rightarrow> string \<Rightarrow> nat list list \<Rightarrow> nat \<Rightarrow> nat \<Rightarrow> nat" where
  \<comment> \<open>the value assigned to \<^verbatim>\<open>matrix[i][j]\<close> in the body of the inner loop\<close>
  "lev_cell a b m i j =
     (if b ! (i - 1) = a ! (j - 1) then m ! (i - 1) ! (j - 1)
      else min (m ! (i - 1) ! (j - 1) + 1) (min (m ! i ! (j - 1) + 1) (m ! (i - 1) ! j + 1)))"

definition lev_matrix :: "string \<Rightarrow> string \<Rightarrow> nat list list" where
  \<comment> \<open>the matrix after the three loops; a \<^verbatim>\<open>for\<close> loop over \<open>lo..hi\<close> is a
      \<^const>\<open>fold\<close> over \<open>[lo..<hi + 1]\<close>\<close>
  "lev_matrix a b =
     (let m0 = fold (\<lambda>i m. put m i [i]) [0 ..< Suc (length b)] [];
          m1 = fold (\<lambda>j m. put2 m 0 j j) [0 ..< Suc (length a)] m0
      in fold (\<lambda>i m. fold (\<lambda>j m. put2 m i j (lev_cell a b m i j)) [1 ..< Suc (length a)] m)
           [1 ..< Suc (length b)] m1)"

definition levenshteinDistance :: "string \<Rightarrow> string \<Rightarrow> nat" where
  "levenshteinDistance a b = lev_matrix a b ! length b ! length a"

text \<open>
  The edit distance as the textbook recurrence over prefixes states it: \<open>lev_rec a b i j\<close>
  is the distance between the first \<open>j\<close> characters of \<open>a\<close> and the first \<open>i\<close>
  characters of \<open>b\<close>, the least cost of a deletion, an insertion, or a substitution that
  is free when the two last characters agree.
\<close>

fun lev_rec :: "string \<Rightarrow> string \<Rightarrow> nat \<Rightarrow> nat \<Rightarrow> nat" where
  "lev_rec a b 0 j = j"
| "lev_rec a b (Suc i) 0 = Suc i"
| "lev_rec a b (Suc i) (Suc j) =
     min (min (lev_rec a b i (Suc j) + 1) (lev_rec a b (Suc i) j + 1))
         (lev_rec a b i j + (if b ! i = a ! j then 0 else 1))"

definition edit_distance :: "string \<Rightarrow> string \<Rightarrow> nat" where
  "edit_distance a b = lev_rec a b (length b) (length a)"

text \<open>
  The state of the matrix while it is filled: the rows before \<open>i\<close> are complete, row \<open>i\<close>
  is filled up to column \<open>c\<close>, and a later row holds its first cell only.
\<close>

definition rows_done :: "string \<Rightarrow> string \<Rightarrow> nat \<Rightarrow> nat \<Rightarrow> nat list list \<Rightarrow> bool" where
  "rows_done a b i c m \<longleftrightarrow>
     length m = Suc (length b)
     \<and> (\<forall>r < i. m ! r = map (lev_rec a b r) [0 ..< Suc (length a)])
     \<and> m ! i = map (lev_rec a b i) [0 ..< Suc c]
     \<and> (\<forall>r. i < r \<and> r \<le> length b \<longrightarrow> m ! r = [r])"

subsection \<open>Sorting with a comparator\<close>

fun insert_by :: "('a \<Rightarrow> 'a \<Rightarrow> int) \<Rightarrow> 'a \<Rightarrow> 'a list \<Rightarrow> 'a list" where
  "insert_by cmp x [] = [x]"
| "insert_by cmp x (y # ys) = (if cmp x y \<le> 0 then x # y # ys else y # insert_by cmp x ys)"

definition js_sort :: "('a \<Rightarrow> 'a \<Rightarrow> int) \<Rightarrow> 'a list \<Rightarrow> 'a list" where
  \<comment> \<open>\<^verbatim>\<open>Array.prototype.sort(cmp)\<close>: a stable sort; with a comparator that is a difference
      of keys its result is the one stable arrangement by ascending comparator, computed
      here by insertion\<close>
  "js_sort cmp xs = foldr (insert_by cmp) xs []"

definition js_slice0 :: "'a list \<Rightarrow> int \<Rightarrow> 'a list" where
  \<comment> \<open>\<^verbatim>\<open>xs.slice(0, n)\<close> for an integer \<open>n\<close>: a negative end counts from the end of the
      array\<close>
  "js_slice0 xs n = (if n < 0 then take (nat (int (length xs) + n)) xs else take (nat n) xs)"

subsection \<open>Suggestions and resolution\<close>

definition findSimilarNotes :: "'a corpus_scheme \<Rightarrow> string \<Rightarrow> int \<Rightarrow> string list" where
  "findSimilarNotes env t maxSuggestions =
     (let allFiles = getAllMarkdownFiles env;
          allSlugs = map (basenameMd env) allFiles;
          scored =
            js_slice0
              (js_sort (\<lambda>a b. int (snd a) - int (snd b))
                (filter (\<lambda>item. snd item \<le> 5)
                  (map (\<lambda>slug. (slug, levenshteinDistance (toLowerCase t) (toLowerCase slug)))
                     allSlugs)))
              maxSuggestions
      in map fst scored)"

definition resolveWikiLink :: "'a corpus_scheme \<Rightarrow> string \<Rightarrow> ResolvedLink" where
  "resolveWikiLink env linkTarget =
     (let lnk = \<lparr>raw = ''[['' @ linkTarget @ '']]'', target = linkTarget, displayText = None,
                 startIndex = 0, endIndex = length linkTarget + 4, line = None\<rparr>;
          found = findNoteByLink env linkTarget
      in if truthy found
         then \<lparr>link = lnk, resolvedPath = found, exists = True, suggestions = None\<rparr>
         else \<lparr>link = lnk, resolvedPath = None, exists = False,
               suggestions = Some (findSimilarNotes env linkTarget 5)\<rparr>)"

subsection \<open>What the suggestions are drawn from\<close>

definition candidates :: "'a corpus_scheme \<Rightarrow> string list" where
  \<comment> \<open>the filename stems of the corpus, in scan order\<close>
  "candidates env = map (basenameMd env) (getAllMarkdownFiles env)"

definition distance_to :: "string \<Rightarrow> string \<Rightarrow> nat" where
  \<comment> \<open>the case-insensitive edit distance between a target and a stem\<close>
  "distance_to t s = edit_distance (toLowerCase t) (toLowerCase s)"

definition close_candidates :: "'a corpus_scheme \<Rightarrow> string \<Rightarrow> string list" where
  "close_candidates env t = filter (\<lambda>s. distance_to t s \<le> 5) (candidates env)"

text \<open>
  A sample corpus: four notes and two blog posts, no daily notes, with a stand-in for the
  path library's \<^verbatim>\<open>basename\<close> (the last segment of the path without a final
  \<^verbatim>\<open>.md\<close>) and a stand-in for \<^verbatim>\<open>slugify\<close>.
\<close>

definition sample_basename :: "string \<Rightarrow> string" where
  "sample_basename p =
     (let seg = rev (takeWhile (\<lambda>c. c \<noteq> CHR ''/'') (rev p))
      in if 3 < length seg \<and> drop (length seg - 3) seg = ''.md''
         then take (length seg - 3) seg else seg)"

definition sample_slugify :: "string \<Rightarrow> string" where
  "sample_slugify s = map (\<lambda>c. if c = CHR '' '' then CHR ''-'' else toLowerChar c) s"

definition corpus0 :: corpus where
  "corpus0 =
     \<lparr>notesDir = Listing [''/pkm/notes/alpha.md'', ''/pkm/notes/beta.md'',
                          ''/pkm/notes/reading-list-2026.md'', ''/pkm/notes/Gamut.md''],
      blogDir = Listing [''/pkm/blog/gamma-rays.md'', ''/pkm/blog/delta.md''],
      dailyDir = Absent,
      fileExists = (\<lambda>p. False),
      joinDaily = (\<lambda>y m d. ''/pkm/daily/'' @ y @ ''/'' @ m @ ''/'' @ d @ ''.md''),
      basenameMd = sample_basename,
      slugify = sample_slugify\<rparr>"


section \<open>Link index (core/link/index.ts)\<close>

record LinkReference =
  sourceSlug :: string
  sourcePath :: string
  ref_link :: WikiLink

record LinkIndexEntry =
  slug :: string
  filePath :: string
  outgoingLinks :: "WikiLink list"
  incomingLinks :: "LinkReference list"

record BrokenLink =
  bl_sourceSlug :: string
  bl_sourcePath :: string
  bl_link :: WikiLink
  bl_suggestions :: "string list option"

record Statistics =
  totalNotes :: int
  totalLinks :: int
  brokenLinks :: int
  validLinks :: int

type_synonym link_index = "(string \<times> LinkIndexEntry) list"
  \<comment> \<open>\<^verbatim>\<open>Map<string, LinkIndexEntry>\<close>: the entries in insertion order, which is the order
      in which a \<^verbatim>\<open>Map\<close> is iterated\<close>

fun map_set :: "'k \<Rightarrow> 'v \<Rightarrow> ('k \<times> 'v) list \<Rightarrow> ('k \<times> 'v) list" where
  \<comment> \<open>\<^verbatim>\<open>Map.prototype.set\<close>: a key that is present keeps its place\<close>
  "map_set k v [] = [(k, v)]"
| "map_set k v ((k', v') # m) = (if k' = k then (k, v) # m else (k', v') # map_set k v m)"

definition getBacklinks :: "link_index \<Rightarrow> string \<Rightarrow> LinkReference list" where
  \<comment> \<open>\<^verbatim>\<open>entry?.incomingLinks || []\<close>\<close>
  "getBacklinks idx s = (case map_of idx s of None \<Rightarrow> [] | Some entry \<Rightarrow> incomingLinks entry)"

definition getOutgoingLinks :: "link_index \<Rightarrow> string \<Rightarrow> WikiLink list" where
  "getOutgoingLinks idx s = (case map_of idx s of None \<Rightarrow> [] | Some entry \<Rightarrow> outgoingLinks entry)"

definition findBrokenLinks :: "'a corpus_scheme \<Rightarrow> link_index \<Rightarrow> BrokenLink list" where
  \<comment> \<open>the two nested \<^verbatim>\<open>for\<close> loops push one record for every outgoing link that does not
      resolve, in the order of the iteration\<close>
  "findBrokenLinks env idx =
     concat (map (\<lambda>(s, entry).
       concat (map (\<lambda>l.
         let resolved = resolveWikiLink env (target l)
         in if \<not> exists resolved
            then [\<lparr>bl_sourceSlug = s, bl_sourcePath = filePath entry, bl_link = l,
                   bl_suggestions = suggestions resolved\<rparr>]
            else [])
         (outgoingLinks entry)))
       idx)"

definition getStatistics :: "'a corpus_scheme \<Rightarrow> link_index \<Rightarrow> Statistics" where
  "getStatistics env idx =
     (let broken = findBrokenLinks env idx;
          total = fold (\<lambda>(s, entry) n. n + int (length (outgoingLinks entry))) idx 0;
          brokenLinksCount = int (length broken)
      in \<lparr>totalNotes = int (length idx), totalLinks = total,
           brokenLinks = brokenLinksCount, validLinks = total - brokenLinksCount\<rparr>)"

definition getMostLinkedNotes :: "link_index \<Rightarrow> int \<Rightarrow> (string \<times> nat) list" where
  \<comment> \<open>the result pairs are the objects \<^verbatim>\<open>{ slug, count }\<close>\<close>
  "getMostLinkedNotes idx limit =
     (let linkCounts = fold (\<lambda>(s, entry) m. map_set s (length (incomingLinks entry)) m) idx []
      in js_slice0 (js_sort (\<lambda>a b. int (snd b) - int (snd a)) linkCounts) limit)"

text \<open>The entries of a \<^verbatim>\<open>Map\<close> have pairwise different keys.\<close>

definition is_map :: "('k \<times> 'v) list \<Rightarrow> bool" where
  "is_map m = distinct (map fst m)"

definition link_counts :: "link_index \<Rightarrow> (string \<times> nat) list" where
  \<comment> \<open>every id of the index with the number of its incoming links, in index order\<close>
  "link_counts idx = map (\<lambda>(s, entry). (s, length (incomingLinks entry))) idx"

text \<open>
  Two sample indexes. The first is what \<^verbatim>\<open>buildIndex\<close> leaves for a corpus of two notes
  without links, \<^verbatim>\<open>notes/zeta.md\<close> and \<^verbatim>\<open>blog/alpha.md\<close> (the notes directory is scanned
  before the blog directory). In the second, \<^verbatim>\<open>a\<close> links to \<^verbatim>\<open>b\<close> and to \<^verbatim>\<open>c\<close>.
\<close>

definition idx1 :: link_index where
  "idx1 = [(''zeta'', \<lparr>slug = ''zeta'', filePath = ''/pkm/notes/zeta.md'',
                       outgoingLinks = [], incomingLinks = []\<rparr>),
           (''alpha'', \<lparr>slug = ''alpha'', filePath = ''/pkm/blog/alpha.md'',
                       outgoingLinks = [], incomingLinks = []\<rparr>)]"

definition link_to :: "string \<Rightarrow> nat \<Rightarrow> WikiLink" where
  "link_to t i = \<lparr>raw = ''[['' @ t @ '']]'', target = t, displayText = None, startIndex = i,
                  endIndex = i + length t + 4, line = Some 1\<rparr>"

definition idx2 :: link_index where
  "idx2 = [(''b'', \<lparr>slug = ''b'', filePath = ''/pkm/notes/b.md'', outgoingLinks = [],
                    incomingLinks = [\<lparr>sourceSlug = ''a'', sourcePath = ''/pkm/notes/a.md'',
                                       ref_link = link_to ''b'' 0\<rparr>]\<rparr>),
           (''a'', \<lparr>slug = ''a'', filePath = ''/pkm/notes/a.md'',
                    outgoingLinks = [link_to ''b'' 0, link_to ''c'' 6], incomingLinks = []\<rparr>),
           (''c'', \<lparr>slug = ''c'', filePath = ''/pkm/notes/c.md'', outgoingLinks = [],
                    incomingLinks = [\<lparr>sourceSlug = ''a'', sourcePath = ''/pkm/notes/a.md'',
                                       ref_link = link_to ''c'' 6\<rparr>]\<rparr>)]"

subsection \<open>The cache file\<close>

record cache_data =
  version :: "string option"
    \<comment> \<open>\<^verbatim>\<open>cacheData.version\<close>, when it is a string\<close>
  timestamp :: "int option"
    \<comment> \<open>\<^verbatim>\<open>new Date(cacheData.timestamp).getTime()\<close> in milliseconds; \<open>None\<close> is
        \<^verbatim>\<open>NaN\<close>, the time of a timestamp that does not parse\<close>
  index :: "link_index option"
    \<comment> \<open>\<^verbatim>\<open>cacheData.index\<close>, when it is an array of pairs; reading the length of a missing
        one, or iterating it, throws\<close>

datatype cache_file =
    NoFile                \<comment> \<open>\<^verbatim>\<open>fileExists(cachePath)\<close> is false\<close>
  | Unparsable            \<comment> \<open>\<^verbatim>\<open>readFile\<close> or \<^verbatim>\<open>JSON.parse\<close> throws\<close>
  | Parsed cache_data

definition maxAge :: int where
  \<comment> \<open>\<^verbatim>\<open>60 * 60 * 1000\<close>: one hour\<close>
  "maxAge = 60 * 60 * 1000"

definition isCacheValid :: "'a corpus_scheme \<Rightarrow> int \<Rightarrow> cache_file \<Rightarrow> bool" where
  \<comment> \<open>\<open>now\<close> is \<^verbatim>\<open>Date.now()\<close>; a comparison with \<^verbatim>\<open>NaN\<close> is false; every exception
      is caught and gives false\<close>
  "isCacheValid env now cf =
     (case cf of
        NoFile \<Rightarrow> False
      | Unparsable \<Rightarrow> False
      | Parsed cacheData \<Rightarrow>
          if (case timestamp cacheData of None \<Rightarrow> False | Some cacheTime \<Rightarrow> now - cacheTime > maxAge)
          then False
          else (case index cacheData of
                  None \<Rightarrow> False
                | Some cached \<Rightarrow> length (getAllMarkdownFiles env) = length cached))"

definition loadCache :: "cache_file \<Rightarrow> link_index \<Rightarrow> bool \<times> link_index" where
  \<comment> \<open>the result and the index afterwards; the index is cleared before the entries are
      read\<close>
  "loadCache cf idx =
     (case cf of
        NoFile \<Rightarrow> (False, idx)
      | Unparsable \<Rightarrow> (False, idx)
      | Parsed cacheData \<Rightarrow>
          if version cacheData \<noteq> Some ''1.0.0'' then (False, idx)
          else (case index cacheData of
                  None \<Rightarrow> (False, [])
                | Some cached \<Rightarrow> (True, fold (\<lambda>(s, entry) m. map_set s entry m) cached [])))"

definition loadOrBuildLinkIndex ::
  "'a corpus_scheme \<Rightarrow> int \<Rightarrow> cache_file option \<Rightarrow> link_index \<Rightarrow> link_index" where
  \<comment> \<open>\<open>built\<close> is the index that \<^verbatim>\<open>buildIndex\<close> computes for the corpus; the cache file
      written at the end is not part of the result\<close>
  "loadOrBuildLinkIndex env now cachePath built =
     (case cachePath of
        None \<Rightarrow> built
      | Some cf \<Rightarrow>
          if isCacheValid env now cf
          then (case loadCache cf [] of (True, idx) \<Rightarrow> idx | (False, idx) \<Rightarrow> built)
          else built)"

text \<open>The corpus of the first sample index: one note and one blog post.\<close>

definition corpus1 :: corpus where
  "corpus1 = corpus0\<lparr>notesDir := Listing [''/pkm/notes/zeta.md''],
                      blogDir := Listing [''/pkm/blog/alpha.md'']\<rparr>"

section \<open>Properties of the parser\<close>

subsection \<open>What a match is\<close>

declare exec_all.simps [simp del]

lemma lit_sound: "r \<in> set (lit p s) \<Longrightarrow> s = p @ r"
proof -
  assume "r \<in> set (lit p s)"
  then have "take (length p) s = p" and "r = drop (length p) s"
    by (auto simp: lit_def split: if_splits)
  then show ?thesis by (metis append_take_drop_id)
qed

lemma cls_plus_sound:
  assumes "(t, r) \<in> set (cls_plus P s)"
  shows "s = t @ r \<and> t \<noteq> [] \<and> (\<forall>c \<in> set t. P c)"
proof -
  from assms obtain k where k: "1 \<le> k" "k \<le> length (takeWhile P s)"
    and t: "t = take k s" and r: "r = drop k s"
    by (auto simp: cls_plus_def)
  have le: "length (takeWhile P s) \<le> length s" by (rule length_takeWhile_le)
  from k le t have "t \<noteq> []" by auto
  moreover have "\<forall>c \<in> set t. P c"
  proof
    fix c assume "c \<in> set t"
    with t have "c \<in> set (take k s)" by simp
    also have "take k s = take k (takeWhile P s)"
      using k(2) by (metis takeWhile_eq_take take_take min.absorb1 min.commute)
    finally have "c \<in> set (takeWhile P s)" by (rule in_set_takeD)
    then show "P c" by (rule set_takeWhileD[THEN conjunct2])
  qed
  ultimately show ?thesis using t r by simp
qed

lemma opt_display_sound:
  assumes "(d, r) \<in> set (opt_display s)"
  shows "s = (case d of None \<Rightarrow> [] | Some x \<Rightarrow> ''|'' @ x) @ r
         \<and> (\<forall>x. d = Some x \<longrightarrow> x \<noteq> [] \<and> (\<forall>c \<in> set x. display_char c))"
proof (cases d)
  case None
  with assms show ?thesis by (auto simp: opt_display_def)
next
  case (Some x)
  with assms obtain s1 where a: "s1 \<in> set (lit ''|'' s)"
    and b: "(x, r) \<in> set (cls_plus display_char s1)"
    by (auto simp: opt_display_def)
  from lit_sound[OF a] cls_plus_sound[OF b] Some show ?thesis by simp
qed

lemma wiki_alts_sound:
  assumes "(t, d, r) \<in> set (wiki_alts s)"
  shows "s = link_text t d @ r \<and> t \<noteq> [] \<and> (\<forall>c \<in> set t. target_char c)
         \<and> (\<forall>x. d = Some x \<longrightarrow> x \<noteq> [] \<and> (\<forall>c \<in> set x. display_char c))"
proof -
  from assms obtain s1 s2 s3 where
    a: "s1 \<in> set (lit ''[['' s)" and b: "(t, s2) \<in> set (cls_plus target_char s1)"
    and c: "(d, s3) \<in> set (opt_display s2)" and e: "r \<in> set (lit '']]'' s3)"
    by (auto simp: wiki_alts_def)
  from lit_sound[OF a] cls_plus_sound[OF b] opt_display_sound[OF c] lit_sound[OF e]
  show ?thesis by (simp add: link_text_def)
qed

lemma match_here_sound:
  assumes "match_here s = Some (r, t, d, rest)"
  shows "s = r @ rest \<and> r = link_text t d \<and> t \<noteq> [] \<and> (\<forall>c \<in> set t. target_char c)
         \<and> (\<forall>x. d = Some x \<longrightarrow> x \<noteq> [] \<and> (\<forall>c \<in> set x. display_char c))"
proof -
  from assms obtain ms where w: "wiki_alts s = (t, d, rest) # ms"
    and r: "r = take (length s - length rest) s"
    by (auto simp: match_here_def split: list.splits)
  from w have "(t, d, rest) \<in> set (wiki_alts s)" by simp
  from wiki_alts_sound[OF this] r show ?thesis by simp
qed

lemma exec_from_sound:
  "exec_from s i = Some (m, rest) \<Longrightarrow>
     \<exists>pre. s = pre @ m_text m @ rest \<and> m_index m = i + length pre
       \<and> match_here (m_text m @ rest) = Some (m_text m, m_group1 m, m_group2 m, rest)
       \<and> (\<forall>k < length pre. match_here (drop k s) = None)"
proof (induction s arbitrary: i)
  case Nil
  then obtain r t d where q: "match_here [] = Some (r, t, d, rest)"
    and m: "m = \<lparr>m_index = i, m_text = r, m_group1 = t, m_group2 = d\<rparr>"
    by (auto split: option.splits)
  from match_here_sound[OF q] have "[] = r @ rest" by simp
  with q m show ?case by simp
next
  case (Cons c cs)
  show ?case
  proof (cases "match_here (c # cs)")
    case None
    with Cons.prems have "exec_from cs (Suc i) = Some (m, rest)" by simp
    from Cons.IH[OF this] obtain pre where p: "cs = pre @ m_text m @ rest"
      "m_index m = Suc i + length pre"
      "match_here (m_text m @ rest) = Some (m_text m, m_group1 m, m_group2 m, rest)"
      "\<forall>k < length pre. match_here (drop k cs) = None" by blast
    have "\<forall>k < length (c # pre). match_here (drop k (c # cs)) = None"
    proof (intro allI impI)
      fix k assume "k < length (c # pre)"
      then show "match_here (drop k (c # cs)) = None"
        using None p(4) by (cases k) auto
    qed
    with p(1-3) show ?thesis
      by (intro exI[of _ "c # pre"]) simp
  next
    case (Some q)
    then obtain r t d rest' where q: "match_here (c # cs) = Some (r, t, d, rest')"
      by (cases q) auto
    with Cons.prems have m: "m = \<lparr>m_index = i, m_text = r, m_group1 = t, m_group2 = d\<rparr>"
      and "rest' = rest" by auto
    with match_here_sound[OF q] q show ?thesis
      by (intro exI[of _ "[]"]) simp
  qed
qed


lemma exec_all_sound:
  "m \<in> set (exec_all s i) \<Longrightarrow>
     \<exists>pre post. s = pre @ m_text m @ post \<and> m_index m = i + length pre
       \<and> match_here (m_text m @ post) = Some (m_text m, m_group1 m, m_group2 m, post)"
proof (induction s i rule: exec_all.induct)
  case (1 s i)
  show ?case
  proof (cases "exec_from s i")
    case None
    with "1.prems" show ?thesis by (simp add: exec_all.simps)
  next
    case (Some q)
    then obtain m0 rest where q: "exec_from s i = Some (m0, rest)" by (cases q) auto
    from exec_from_sound[OF q] obtain pre0 where p0: "s = pre0 @ m_text m0 @ rest"
      "m_index m0 = i + length pre0"
      "match_here (m_text m0 @ rest) = Some (m_text m0, m_group1 m0, m_group2 m0, rest)"
      by blast
    from "1.prems" q have "m = m0 \<or> m \<in> set (exec_all rest (m_index m0 + length (m_text m0)))"
      by (subst (asm) exec_all.simps) auto
    then show ?thesis
    proof
      assume "m = m0"
      with p0 show ?thesis by blast
    next
      assume "m \<in> set (exec_all rest (m_index m0 + length (m_text m0)))"
      from "1.IH"[OF q refl this] obtain pre post where
        p: "rest = pre @ m_text m @ post"
           "m_index m = m_index m0 + length (m_text m0) + length pre"
           "match_here (m_text m @ post) = Some (m_text m, m_group1 m, m_group2 m, post)"
        by blast
      show ?thesis
        using p p0 by (intro exI[of _ "pre0 @ m_text m0 @ pre"] exI[of _ post]) simp
    qed
  qed
qed

lemma split_nl_nonempty: "split_nl s \<noteq> []"
  by (induction s) (auto split: list.splits)

lemma split_nl_no_newline: "l \<in> set (split_nl s) \<Longrightarrow> newline \<notin> set l"
proof (induction s arbitrary: l)
  case Nil
  then show ?case by simp
next
  case (Cons c cs)
  then show ?case
    using split_nl_nonempty[of cs]
    by (auto simp: newline_def split: if_splits list.splits)
qed

lemma join_nl_Cons: "ls \<noteq> [] \<Longrightarrow> join_nl (l # ls) = l @ newline # join_nl ls"
  by (cases ls) auto

lemma join_split_nl: "join_nl (split_nl s) = s"
proof (induction s)
  case Nil
  then show ?case by simp
next
  case (Cons c cs)
  obtain l ls where s: "split_nl cs = l # ls"
    using split_nl_nonempty[of cs] by (cases "split_nl cs") auto
  show ?case
  proof (cases "c = CHR 0x0A")
    case True
    with Cons s show ?thesis by (simp add: newline_def)
  next
    case False
    with Cons s show ?thesis by (cases ls) auto
  qed
qed


subsection \<open>The matcher finds every well-formed literal\<close>

lemma lit_Nil_pat [simp]: "lit [] s = [s]"
  by (simp add: lit_def)

lemma lit_Cons_Cons [simp]: "lit (a # p) (c # s) = (if c = a then lit p s else [])"
  by (auto simp: lit_def)

lemma lit_Cons_Nil [simp]: "lit (a # p) [] = []"
  by (simp add: lit_def)

lemma concat_cls_plus:
  assumes t: "takeWhile P s = t" and ne: "t \<noteq> []"
    and fail: "\<And>k. 0 < k \<Longrightarrow> k < length t \<Longrightarrow> f (take k s, drop k s) = []"
  shows "concat (map f (cls_plus P s)) = f (t, drop (length t) s)"
proof -
  define n where "n = length t"
  from ne have n: "0 < n" by (simp add: n_def)
  have tk: "take n s = t"
    using t by (metis n_def takeWhile_eq_take)
  have "rev [1 ..< Suc n] = n # rev [1 ..< n]"
    using n by (simp add: Suc_leI)
  then have c: "cls_plus P s = (t, drop n s) # map (\<lambda>k. (take k s, drop k s)) (rev [1 ..< n])"
    by (simp add: cls_plus_def t n_def[symmetric] tk)
  have "\<forall>k \<in> set (rev [1 ..< n]). f (take k s, drop k s) = []"
    using fail by (auto simp: n_def)
  then have "concat (map f (map (\<lambda>k. (take k s, drop k s)) (rev [1 ..< n]))) = []"
    by (simp add: comp_def)
  with c show ?thesis by (simp add: n_def)
qed

lemma cls_plus_none: "takeWhile P s = [] \<Longrightarrow> cls_plus P s = []"
  by (simp add: cls_plus_def)

lemma takeWhile_stop:
  "\<forall>c \<in> set t. P c \<Longrightarrow> (s = [] \<or> \<not> P (hd s)) \<Longrightarrow> takeWhile P (t @ s) = t"
  by (cases s) (auto simp: takeWhile_append2)

lemma drop_in_prefix:
  "k < length t \<Longrightarrow> drop k (t @ s) = (t ! k) # drop (Suc k) t @ s"
  by (simp add: Cons_nth_drop_Suc)

text \<open>The display group, followed by the closing brackets.\<close>

lemma display_then_close:
  assumes "d \<noteq> []" "\<forall>c \<in> set d. display_char c"
  shows "concat (map (\<lambda>(x, s3). map (\<lambda>s4. (t, x, s4)) (lit '']]'' s3)) (opt_display (''|'' @ d @ '']]'' @ r)))
         = [(t, Some d, r)]"
proof -
  let ?s = "d @ '']]'' @ r"
  have tw: "takeWhile display_char ?s = d"
    using assms(2) by (intro takeWhile_stop) (auto simp: display_char_def)
  have "concat (map (\<lambda>(x, s3). map (\<lambda>s4. (t, Some x, s4)) (lit '']]'' s3)) (cls_plus display_char ?s))
        = (\<lambda>(x, s3). map (\<lambda>s4. (t, Some x, s4)) (lit '']]'' s3)) (d, drop (length d) ?s)"
  proof (rule concat_cls_plus[OF tw assms(1)])
    fix k assume "0 < k" "k < length d"
    then have "display_char (d ! k)" using assms(2) by auto
    moreover have "drop k ?s = (d ! k) # drop (Suc k) d @ '']]'' @ r"
      using \<open>k < length d\<close> by (rule drop_in_prefix)
    ultimately show "(\<lambda>(x, s3). map (\<lambda>s4. (t, Some x, s4)) (lit '']]'' s3)) (take k ?s, drop k ?s) = []"
      by (simp add: display_char_def del: drop_append)
  qed
  then have a: "concat (map (\<lambda>(x, s3). map (\<lambda>s4. (t, Some x, s4)) (lit '']]'' s3)) (cls_plus display_char ?s))
        = [(t, Some d, r)]" by simp
  have "opt_display (''|'' @ d @ '']]'' @ r)
      = map (\<lambda>(x, s2). (Some x, s2)) (cls_plus display_char ?s) @ [(None, ''|'' @ d @ '']]'' @ r)]"
    by (simp add: opt_display_def)
  moreover have "concat (map (\<lambda>(x, s3). map (\<lambda>s4. (t, x, s4)) (lit '']]'' s3))
                  (map (\<lambda>(x, s2). (Some x, s2)) (cls_plus display_char ?s)))
               = concat (map (\<lambda>(x, s3). map (\<lambda>s4. (t, Some x, s4)) (lit '']]'' s3)) (cls_plus display_char ?s))"
    by (simp add: comp_def case_prod_unfold)
  ultimately show ?thesis using a by simp
qed

lemma no_display_then_close:
  "concat (map (\<lambda>(x, s3). map (\<lambda>s4. (t, x, s4)) (lit '']]'' s3)) (opt_display ('']]'' @ r)))
         = [(t, None, r)]"
  by (simp add: opt_display_def)

lemma target_char_then_fail:
  assumes "target_char c"
  shows "concat (map (\<lambda>(x, s3). map (\<lambda>s4. (t, x, s4)) (lit '']]'' s3)) (opt_display (c # s))) = []"
  using assms by (simp add: opt_display_def target_char_def)

lemma wiki_alts_complete:
  assumes "t \<noteq> []" "\<forall>c \<in> set t. target_char c"
    and "\<forall>x. d = Some x \<longrightarrow> x \<noteq> [] \<and> (\<forall>c \<in> set x. display_char c)"
  shows "wiki_alts (link_text t d @ r) = [(t, d, r)]"
proof -
  let ?tail = "(case d of None \<Rightarrow> [] | Some x \<Rightarrow> ''|'' @ x) @ '']]'' @ r"
  let ?f = "\<lambda>(t, s2). concat (map (\<lambda>(x, s3). map (\<lambda>s4. (t, x, s4)) (lit '']]'' s3)) (opt_display s2))"
  have l: "link_text t d @ r = ''[['' @ t @ ?tail" by (simp add: link_text_def)
  have tw: "takeWhile target_char (t @ ?tail) = t"
    using assms(2) by (intro takeWhile_stop) (auto simp: target_char_def split: option.splits)
  have "concat (map ?f (cls_plus target_char (t @ ?tail))) = ?f (t, drop (length t) (t @ ?tail))"
  proof (rule concat_cls_plus[OF tw assms(1)])
    fix k assume "0 < k" "k < length t"
    then have "target_char (t ! k)" using assms(2) by auto
    moreover have "drop k (t @ ?tail) = (t ! k) # drop (Suc k) t @ ?tail"
      using \<open>k < length t\<close> by (rule drop_in_prefix)
    ultimately show "?f (take k (t @ ?tail), drop k (t @ ?tail)) = []"
      by (simp add: target_char_then_fail del: drop_append)
  qed
  also have "\<dots> = [(t, d, r)]"
  proof (cases d)
    case None
    then show ?thesis using no_display_then_close[of t r] by simp
  next
    case (Some x)
    with assms(3) have "x \<noteq> []" "\<forall>c \<in> set x. display_char c" by auto
    from display_then_close[OF this, of t r] Some show ?thesis by simp
  qed
  finally have "concat (map ?f (cls_plus target_char (t @ ?tail))) = [(t, d, r)]" .
  then show ?thesis
    unfolding l wiki_alts_def by simp
qed

lemma match_here_complete:
  assumes "t \<noteq> []" "\<forall>c \<in> set t. target_char c"
    and "\<forall>x. d = Some x \<longrightarrow> x \<noteq> [] \<and> (\<forall>c \<in> set x. display_char c)"
  shows "match_here (link_text t d @ r) = Some (link_text t d, t, d, r)"
  by (simp add: match_here_def wiki_alts_complete[OF assms])


subsection \<open>Offsets and line numbers\<close>

lemma newlines_before_no_newline:
  "newline \<notin> set l \<Longrightarrow> n \<le> length l \<Longrightarrow> newlines_before n (l @ s) = 0"
  unfolding newlines_before_def
  by (auto simp: filter_empty_conv dest: in_set_takeD)

lemma newlines_before_skip_line:
  assumes "newline \<notin> set l"
  shows "newlines_before (length l + 1 + n) (l @ newline # s) = 1 + newlines_before n s"
proof -
  have "filter (\<lambda>c. c = newline) l = []"
    using assms by (auto simp: filter_empty_conv)
  then show ?thesis by (simp add: newlines_before_def)
qed

lemma extract_lines_sound:
  assumes "\<forall>l \<in> set ls. newline \<notin> set l" and "r \<in> set (extract_lines ls ln cur)"
  shows "cur \<le> startIndex r \<and> raw r \<noteq> []
         \<and> endIndex r = startIndex r + length (raw r)
         \<and> startIndex r - cur + length (raw r) \<le> length (join_nl ls)
         \<and> raw r = take (length (raw r)) (drop (startIndex r - cur) (join_nl ls))
         \<and> line r = Some (ln + 1 + newlines_before (startIndex r - cur) (join_nl ls))"
  using assms
proof (induction ls arbitrary: ln cur)
  case Nil
  then show ?case by simp
next
  case (Cons l ls)
  from Cons.prems(1) have nl: "newline \<notin> set l" and nls: "\<forall>l \<in> set ls. newline \<notin> set l"
    by auto
  obtain tl where j: "join_nl (l # ls) = l @ tl" and tl: "ls \<noteq> [] \<Longrightarrow> tl = newline # join_nl ls"
    by (cases ls) auto
  from Cons.prems(2) consider
    (here) m where "m \<in> set (exec_all l 0)" "r = mk_link ln cur m"
    | (later) "r \<in> set (extract_lines ls (ln + 1) (cur + length l + 1))"
    by auto
  then show ?case
  proof cases
    case here
    from exec_all_sound[OF here(1)] obtain pre post where
      p: "l = pre @ m_text m @ post" "m_index m = length pre"
         "match_here (m_text m @ post) = Some (m_text m, m_group1 m, m_group2 m, post)"
      by auto
    from match_here_sound[OF p(3)] have ne: "m_text m \<noteq> []"
      by (auto simp: link_text_def)
    have "newlines_before (length pre) (l @ tl) = 0"
      using nl p(1) by (intro newlines_before_no_newline) auto
    with here(2) p(1,2) ne j show ?thesis
      by (simp add: mk_link_def)
  next
    case later
    then have ne: "ls \<noteq> []" by auto
    from Cons.IH[OF nls later] have ih:
      "cur + length l + 1 \<le> startIndex r" "raw r \<noteq> []"
      "endIndex r = startIndex r + length (raw r)"
      "startIndex r - (cur + length l + 1) + length (raw r) \<le> length (join_nl ls)"
      "raw r = take (length (raw r)) (drop (startIndex r - (cur + length l + 1)) (join_nl ls))"
      "line r = Some (ln + 1 + 1 + newlines_before (startIndex r - (cur + length l + 1)) (join_nl ls))"
      by auto
    define n where "n = startIndex r - (cur + length l + 1)"
    from ih(1) have s: "startIndex r - cur = length l + 1 + n" by (simp add: n_def)
    have d: "drop (length l + 1 + n) (l @ newline # join_nl ls) = drop n (join_nl ls)"
      by simp
    have nb: "newlines_before (length l + 1 + n) (l @ newline # join_nl ls)
              = 1 + newlines_before n (join_nl ls)"
      by (rule newlines_before_skip_line[OF nl])
    from ih show ?thesis
      unfolding j tl[OF ne] s d nb n_def[symmetric] by simp
  qed
qed

text \<open>
  C8. Every link returned by \<^verbatim>\<open>extractWikiLinks\<close> has \<open>startIndex < endIndex\<close>, its
  \<open>raw\<close> is the substring of the whole original text from \<open>startIndex\<close> to
  \<open>endIndex\<close> (offsets into the text, not into the line), and its line number is one
  plus the number of newlines in the text before the match.
\<close>

theorem extractWikiLinks_offsets:
  assumes "r \<in> set (extractWikiLinks content)"
  shows "startIndex r < endIndex r \<and> endIndex r \<le> length content
         \<and> raw r = substring content (startIndex r) (endIndex r)
         \<and> line r = Some (1 + newlines_before (startIndex r) content)"
proof -
  have "\<forall>l \<in> set (split_nl content). newline \<notin> set l"
    by (auto dest: split_nl_no_newline)
  from extract_lines_sound[OF this assms[unfolded extractWikiLinks_def]]
  show ?thesis
    by (simp add: join_split_nl substring_def)
qed

theorem extractWikiLinks_offsets_witness:
  "\<lparr>raw = ''[[b| B ]]'', target = ''b'', displayText = Some ''B'',
     startIndex = 12, endIndex = 21, line = Some 2\<rparr>
     \<in> set (extractWikiLinks (''ab [[a]]'' @ [newline] @ ''x  [[b| B ]] y''))
   \<and> (12::nat) < 21 \<and> (21::nat) \<le> length (''ab [[a]]'' @ [newline] @ ''x  [[b| B ]] y'')
   \<and> ''[[b| B ]]'' = substring (''ab [[a]]'' @ [newline] @ ''x  [[b| B ]] y'') 12 21
   \<and> newlines_before 12 (''ab [[a]]'' @ [newline] @ ''x  [[b| B ]] y'') = 1"
proof -
  have m: "\<lparr>raw = ''[[b| B ]]'', target = ''b'', displayText = Some ''B'',
     startIndex = 12, endIndex = 21, line = Some 2\<rparr>
     \<in> set (extractWikiLinks (''ab [[a]]'' @ [newline] @ ''x  [[b| B ]] y''))"
    by code_simp
  from extractWikiLinks_offsets[OF m] m show ?thesis by simp
qed


subsection \<open>Creating and validating literals\<close>

lemma split_nl_single: "newline \<notin> set s \<Longrightarrow> split_nl s = [s]"
  by (induction s) (auto simp: newline_def)

lemma match_here_Nil: "match_here [] = None"
  by (simp add: match_here_def wiki_alts_def)

lemma exec_from_here:
  assumes "match_here s = Some (r, t, d, rest)"
  shows "exec_from s i = Some (\<lparr>m_index = i, m_text = r, m_group1 = t, m_group2 = d\<rparr>, rest)"
  using assms by (cases s) auto

lemma exec_all_Nil: "exec_all [] i = []"
  by (simp add: exec_all.simps match_here_Nil)

lemma exec_all_literal:
  assumes "t \<noteq> []" "\<forall>c \<in> set t. target_char c"
    and "\<forall>x. d = Some x \<longrightarrow> x \<noteq> [] \<and> (\<forall>c \<in> set x. display_char c)"
  shows "exec_all (link_text t d) 0
         = [\<lparr>m_index = 0, m_text = link_text t d, m_group1 = t, m_group2 = d\<rparr>]"
proof -
  from match_here_complete[OF assms, of "[]"]
  have "match_here (link_text t d) = Some (link_text t d, t, d, [])" by simp
  from exec_from_here[OF this, of 0] show ?thesis
    by (simp add: exec_all.simps[of "link_text t d"] exec_all_Nil)
qed

lemma createWikiLink_link_text:
  "d \<noteq> [] \<Longrightarrow> createWikiLink t (Some d) = link_text t (Some d)"
  by (simp add: createWikiLink_def link_text_def)

text \<open>
  C3 (as amended). For every non-empty target that contains no \<^verbatim>\<open>]\<close>, \<^verbatim>\<open>|\<close> or newline
  and has no white space at either end, and every non-empty display text that contains no
  \<^verbatim>\<open>]\<close> or newline and has no white space at either end, extracting the links of
  \<^verbatim>\<open>createWikiLink(target, display)\<close> yields exactly one link, whose target and display
  text are the given ones.
\<close>

theorem extract_create_roundtrip:
  assumes "tgt \<noteq> []" "\<forall>c \<in> set tgt. target_char c \<and> c \<noteq> newline" "trim tgt = tgt"
    and "disp \<noteq> []" "\<forall>c \<in> set disp. display_char c \<and> c \<noteq> newline" "trim disp = disp"
  shows "extractWikiLinks (createWikiLink tgt (Some disp)) =
           [\<lparr>raw = createWikiLink tgt (Some disp), target = tgt, displayText = Some disp,
             startIndex = 0, endIndex = length (createWikiLink tgt (Some disp)),
             line = Some 1\<rparr>]"
proof -
  let ?s = "link_text tgt (Some disp)"
  have nl: "newline \<notin> set ?s"
    using assms(2,5) by (auto simp: link_text_def newline_def)
  have "exec_all ?s 0 = [\<lparr>m_index = 0, m_text = ?s, m_group1 = tgt, m_group2 = Some disp\<rparr>]"
    using assms by (intro exec_all_literal) auto
  then show ?thesis
    using assms(3,4,6)
    by (simp add: extractWikiLinks_def createWikiLink_link_text split_nl_single[OF nl] mk_link_def)
qed

text \<open>A target with inner white space and a display text with punctuation.\<close>

theorem extract_create_roundtrip_witness:
  "extractWikiLinks (createWikiLink ''my note'' (Some ''Display: Text!'')) =
     [\<lparr>raw = ''[[my note|Display: Text!]]'', target = ''my note'',
       displayText = Some ''Display: Text!'', startIndex = 0, endIndex = 26, line = Some 1\<rparr>]"
proof -
  have a: "''my note'' \<noteq> []" "\<forall>c \<in> set ''my note''. target_char c \<and> c \<noteq> newline"
    "trim ''my note'' = ''my note''"
    by (simp_all add: target_char_def newline_def trim_def is_space_def)
  have b: "''Display: Text!'' \<noteq> []"
    "\<forall>c \<in> set ''Display: Text!''. display_char c \<and> c \<noteq> newline"
    "trim ''Display: Text!'' = ''Display: Text!''"
    by (simp_all add: display_char_def newline_def trim_def is_space_def)
  from extract_create_roundtrip[OF a b] show ?thesis
    by (simp add: createWikiLink_def)
qed

text \<open>
  The round trip as claimed for every target and display text fails where the parser
  trims: the target and the display text come back without their outer spaces.
\<close>

theorem extract_create_roundtrip_counterexample:
  "extractWikiLinks (createWikiLink ''my note '' (Some '' Display''))
     = [\<lparr>raw = ''[[my note | Display]]'', target = ''my note'',
         displayText = Some ''Display'', startIndex = 0, endIndex = 21, line = Some 1\<rparr>]
   \<and> ''my note'' \<noteq> ''my note '' \<and> ''Display'' \<noteq> '' Display''"
  by code_simp


subsection \<open>Parsing one literal\<close>

lemma exec_from_None_iff:
  "exec_from s i = None \<longleftrightarrow> (\<forall>k. match_here (drop k s) = None)"
proof (induction s arbitrary: i)
  case Nil
  then show ?case by (simp add: match_here_Nil)
next
  case (Cons c cs)
  show ?case
  proof (cases "match_here (c # cs)")
    case None
    have "(\<forall>k. match_here (drop k (c # cs)) = None) \<longleftrightarrow> (\<forall>k. match_here (drop k cs) = None)"
    proof
      assume a: "\<forall>k. match_here (drop k (c # cs)) = None"
      show "\<forall>k. match_here (drop k cs) = None"
      proof
        fix k from a have "match_here (drop (Suc k) (c # cs)) = None" by blast
        then show "match_here (drop k cs) = None" by simp
      qed
    next
      assume a: "\<forall>k. match_here (drop k cs) = None"
      show "\<forall>k. match_here (drop k (c # cs)) = None"
      proof
        fix k show "match_here (drop k (c # cs)) = None"
          using None a by (cases k) auto
      qed
    qed
    with None Cons.IH[of "Suc i"] show ?thesis by simp
  next
    case (Some q)
    have "\<not> (\<forall>k. match_here (drop k (c # cs)) = None)"
    proof
      assume "\<forall>k. match_here (drop k (c # cs)) = None"
      then have "match_here (drop 0 (c # cs)) = None" by (rule spec)
      with Some show False by simp
    qed
    with Some show ?thesis by (auto split: prod.splits)
  qed
qed

text \<open>
  C4 (as amended). \<^verbatim>\<open>parseWikiLink\<close> returns null exactly when the pattern matches at no
  position of the input. Otherwise it returns the leftmost match, whether or not text
  precedes or follows it: \<open>raw\<close> is the matched text, the groups are trimmed,
  \<open>startIndex\<close> is 0 and \<open>endIndex\<close> is the length of \<open>raw\<close>. That the match spans the
  whole input is what \<^verbatim>\<open>isValidWikiLink\<close> tests.
\<close>

theorem parseWikiLink_first_match:
  "(parseWikiLink inp = None \<longleftrightarrow> (\<forall>k. match_here (drop k inp) = None))
   \<and> (\<forall>r. parseWikiLink inp = Some r \<longrightarrow>
        (\<exists>pre post g1 g2. inp = pre @ raw r @ post
           \<and> (\<forall>k < length pre. match_here (drop k inp) = None)
           \<and> match_here (raw r @ post) = Some (raw r, g1, g2, post)
           \<and> target r = trim g1 \<and> displayText r = map_option trim g2
           \<and> startIndex r = 0 \<and> endIndex r = length (raw r) \<and> line r = None
           \<and> (isValidWikiLink inp \<longleftrightarrow> pre = [] \<and> post = [])))"
proof (intro conjI allI impI)
  show "parseWikiLink inp = None \<longleftrightarrow> (\<forall>k. match_here (drop k inp) = None)"
  proof -
    have "parseWikiLink inp = None \<longleftrightarrow> exec_from inp 0 = None"
      by (simp add: parseWikiLink_def split: option.splits prod.splits)
    then show ?thesis
      by (simp only: exec_from_None_iff)
  qed
next
  fix r assume a: "parseWikiLink inp = Some r"
  then obtain m rest where e: "exec_from inp 0 = Some (m, rest)"
    and r: "r = \<lparr>raw = m_text m, target = trim (m_group1 m),
                 displayText = map_option trim (m_group2 m), startIndex = 0,
                 endIndex = length (m_text m), line = None\<rparr>"
    by (auto simp: parseWikiLink_def split: option.splits)
  from exec_from_sound[OF e] obtain pre where p: "inp = pre @ m_text m @ rest"
    "match_here (m_text m @ rest) = Some (m_text m, m_group1 m, m_group2 m, rest)"
    "\<forall>k < length pre. match_here (drop k inp) = None" by auto
  have "isValidWikiLink inp \<longleftrightarrow> m_text m = inp"
    using e by (simp add: isValidWikiLink_def)
  also have "\<dots> \<longleftrightarrow> pre = [] \<and> rest = []"
  proof
    assume "m_text m = inp"
    with p(1) have "m_text m = pre @ m_text m @ rest" by simp
    then have "length (m_text m) = length (pre @ m_text m @ rest)" by (rule arg_cong)
    then show "pre = [] \<and> rest = []" by simp
  next
    assume "pre = [] \<and> rest = []"
    with p(1) show "m_text m = inp" by simp
  qed
  finally have v: "isValidWikiLink inp \<longleftrightarrow> pre = [] \<and> rest = []" .
  show "\<exists>pre post g1 g2. inp = pre @ raw r @ post
           \<and> (\<forall>k < length pre. match_here (drop k inp) = None)
           \<and> match_here (raw r @ post) = Some (raw r, g1, g2, post)
           \<and> target r = trim g1 \<and> displayText r = map_option trim g2
           \<and> startIndex r = 0 \<and> endIndex r = length (raw r) \<and> line r = None
           \<and> (isValidWikiLink inp \<longleftrightarrow> pre = [] \<and> post = [])"
    using p v unfolding r
    by (intro exI[of _ pre] exI[of _ rest] exI[of _ "m_group1 m"] exI[of _ "m_group2 m"]) simp
qed

text \<open>A link preceded by other text is returned, and the input is not a valid literal.\<close>

theorem parseWikiLink_first_match_witness:
  "parseWikiLink ''text [[a]]'' =
     Some \<lparr>raw = ''[[a]]'', target = ''a'', displayText = None, startIndex = 0,
            endIndex = 5, line = None\<rparr>
   \<and> \<not> isValidWikiLink ''text [[a]]''"
proof -
  let ?r = "\<lparr>raw = ''[[a]]'', target = ''a'', displayText = None, startIndex = 0,
            endIndex = 5, line = None\<rparr>"
  have a: "parseWikiLink ''text [[a]]'' = Some ?r" by code_simp
  from parseWikiLink_first_match[of "''text [[a]]''"] a
  obtain pre post where p: "''text [[a]]'' = pre @ raw ?r @ post"
    "isValidWikiLink ''text [[a]]'' \<longleftrightarrow> pre = [] \<and> post = []"
    by blast
  have "\<not> (pre = [] \<and> post = [])"
    using p(1) by auto
  with p(2) a show ?thesis by simp
qed

text \<open>
  The two inputs the claim names: on both, \<^verbatim>\<open>parseWikiLink\<close> returns a link and not null.
\<close>

theorem parseWikiLink_whole_input_counterexample:
  "parseWikiLink ''[[first]][[second]]'' =
     Some \<lparr>raw = ''[[first]]'', target = ''first'', displayText = None, startIndex = 0,
            endIndex = 9, line = None\<rparr>
   \<and> parseWikiLink ''text [[a]]'' \<noteq> None"
  by code_simp


text \<open>
  C10. \<^verbatim>\<open>createWikiLink\<close> called with the empty string as display text returns
  \<^verbatim>\<open>[[target]]\<close> with no pipe separator: the empty display text is treated exactly
  like an absent one.
\<close>

theorem createWikiLink_empty_display:
  "createWikiLink tgt (Some []) = ''[['' @ tgt @ '']]''
   \<and> createWikiLink tgt (Some []) = createWikiLink tgt None
   \<and> CHR ''|'' \<notin> set (createWikiLink ''note'' (Some []))"
  by (simp add: createWikiLink_def)

text \<open>
  C1. The claim is that a candidate with an inner bracket contributes no link at all, and
  that \<^verbatim>\<open>extractWikiLinks("[[note-[test]]]")\<close> is empty. The class of the first group,
  \<^verbatim>\<open>[^\]|]\<close>, excludes \<^verbatim>\<open>]\<close> and \<^verbatim>\<open>|\<close> but not \<^verbatim>\<open>[\<close>, so on this input the
  function returns one link, with target \<^verbatim>\<open>note-[test\<close>, matched up to the first
  \<^verbatim>\<open>]]\<close>.
\<close>

theorem extractWikiLinks_inner_open_bracket:
  "extractWikiLinks ''[[note-[test]]]'' =
     [\<lparr>raw = ''[[note-[test]]'', target = ''note-[test'', displayText = None,
       startIndex = 0, endIndex = 14, line = Some 1\<rparr>]"
  by code_simp

section \<open>Properties of the index\<close>

lemma map_of_absent: "s \<notin> fst ` set idx \<Longrightarrow> map_of idx s = None"
  by (simp add: map_of_eq_None_iff)

text \<open>
  C9. For every id that is not a key of the index, \<^verbatim>\<open>getBacklinks\<close> and
  \<^verbatim>\<open>getOutgoingLinks\<close> return the empty array. Neither function has a path that throws:
  both are total and return a list.
\<close>

theorem unknown_id_empty:
  assumes "s \<notin> fst ` set idx"
  shows "getBacklinks idx s = [] \<and> getOutgoingLinks idx s = []"
  using map_of_absent[OF assms] by (simp add: getBacklinks_def getOutgoingLinks_def)

theorem unknown_id_empty_witness:
  "''gamma'' \<notin> fst ` set idx1 \<and> getBacklinks idx1 ''gamma'' = []
   \<and> getOutgoingLinks idx1 ''gamma'' = []"
proof -
  have a: "''gamma'' \<notin> fst ` set idx1" by (simp add: idx1_def)
  from unknown_id_empty[OF a] a show ?thesis by simp
qed

lemma length_concat_le:
  "(\<And>x. x \<in> set xs \<Longrightarrow> length (f x) \<le> g x) \<Longrightarrow> length (concat (map f xs)) \<le> sum_list (map g xs)"
  by (induction xs) (auto simp: add_mono)

lemma fold_total:
  "fold (\<lambda>(s, entry) n. n + int (length (outgoingLinks entry))) idx k
     = k + int (sum_list (map (\<lambda>(s, entry). length (outgoingLinks entry)) idx))"
  by (induction idx arbitrary: k) (auto)

lemma findBrokenLinks_le:
  "length (findBrokenLinks env idx) \<le> sum_list (map (\<lambda>(s, entry). length (outgoingLinks entry)) idx)"
  unfolding findBrokenLinks_def
proof (rule length_concat_le)
  fix x :: "string \<times> LinkIndexEntry"
  obtain s entry where x: "x = (s, entry)" by (cases x)
  have "length (concat (map (\<lambda>l.
         let resolved = resolveWikiLink env (target l)
         in if \<not> exists resolved
            then [\<lparr>bl_sourceSlug = s, bl_sourcePath = filePath entry, bl_link = l,
                   bl_suggestions = suggestions resolved\<rparr>]
            else []) (outgoingLinks entry))) \<le> sum_list (map (\<lambda>l. 1) (outgoingLinks entry))"
    by (rule length_concat_le) (simp add: Let_def)
  then show "length (case x of (s, entry) \<Rightarrow>
       concat (map (\<lambda>l.
         let resolved = resolveWikiLink env (target l)
         in if \<not> exists resolved
            then [\<lparr>bl_sourceSlug = s, bl_sourcePath = filePath entry, bl_link = l,
                   bl_suggestions = suggestions resolved\<rparr>]
            else []) (outgoingLinks entry)))
     \<le> (case x of (s, entry) \<Rightarrow> length (outgoingLinks entry))"
    by (simp add: x sum_list_triv)
qed

text \<open>
  C7. For every index and every corpus (the same for both calls), the number of records
  that \<^verbatim>\<open>findBrokenLinks\<close> returns is \<^verbatim>\<open>getStatistics().brokenLinks\<close>, which equals
  \<^verbatim>\<open>totalLinks - validLinks\<close>; and \<^verbatim>\<open>validLinks\<close> is not negative.
\<close>

theorem statistics_consistent:
  "int (length (findBrokenLinks env idx)) = brokenLinks (getStatistics env idx)
   \<and> brokenLinks (getStatistics env idx)
       = totalLinks (getStatistics env idx) - validLinks (getStatistics env idx)
   \<and> 0 \<le> validLinks (getStatistics env idx)"
  using findBrokenLinks_le[of env idx]
  by (simp add: getStatistics_def Let_def fold_total)


subsection \<open>Ranking by incoming links\<close>

lemma insert_by_insort_key:
  assumes "\<And>a b. cmp a b \<le> 0 \<longleftrightarrow> f a \<le> f b"
  shows "insert_by cmp x ys = insort_key f x ys"
  by (induction ys) (simp_all add: assms)

lemma js_sort_sort_key:
  assumes "\<And>a b. cmp a b \<le> 0 \<longleftrightarrow> f a \<le> f b"
  shows "js_sort cmp xs = sort_key f xs"
  by (induction xs) (simp_all add: js_sort_def sort_key_def insert_by_insort_key[OF assms])

lemma map_set_absent: "k \<notin> fst ` set m \<Longrightarrow> map_set k v m = m @ [(k, v)]"
  by (induction m) auto

lemma fold_map_set_distinct:
  assumes "distinct (map fst idx)" "fst ` set idx \<inter> fst ` set acc = {}"
  shows "fold (\<lambda>(s, entry) m. map_set s (g entry) m) idx acc
         = acc @ map (\<lambda>(s, entry). (s, g entry)) idx"
  using assms
proof (induction idx arbitrary: acc)
  case Nil
  then show ?case by simp
next
  case (Cons x idx)
  obtain s entry where x: "x = (s, entry)" by (cases x)
  from Cons.prems x have a: "s \<notin> fst ` set acc" by auto
  have d: "distinct (map fst idx)" using Cons.prems by simp
  have "fst ` set idx \<inter> fst ` set (acc @ [(s, g entry)]) = {}"
    using Cons.prems x by auto
  from Cons.IH[OF d this] show ?case
    by (simp add: x map_set_absent[OF a])
qed

lemma linkCounts_eq:
  "is_map idx \<Longrightarrow>
   fold (\<lambda>(s, entry) m. map_set s (length (incomingLinks entry)) m) idx [] = link_counts idx"
  using fold_map_set_distinct[of idx "[]" "\<lambda>e. length (incomingLinks e)"]
  by (simp add: is_map_def link_counts_def)

text \<open>
  C5 (as amended). For every index and every limit that is not negative,
  \<^verbatim>\<open>getMostLinkedNotes\<close> returns the first \<open>limit\<close> elements of a ranking of all ids with
  their counts of incoming links: the ranking is in descending order of the count, and ids
  of equal count keep the order they have in the index (the order of insertion); the
  order of the ids themselves plays no part.
\<close>

theorem getMostLinkedNotes_ranking:
  assumes "is_map idx" "0 \<le> limit"
  shows "\<exists>ranked. getMostLinkedNotes idx limit = take (nat limit) ranked
           \<and> mset ranked = mset (link_counts idx)
           \<and> sorted_wrt (\<lambda>p q. snd q \<le> snd p) ranked
           \<and> (\<forall>c. filter (\<lambda>p. snd p = c) ranked = filter (\<lambda>p. snd p = c) (link_counts idx))"
proof -
  let ?f = "\<lambda>p :: string \<times> nat. - int (snd p)"
  let ?ranked = "sort_key ?f (link_counts idx)"
  have s: "js_sort (\<lambda>a b. int (snd b) - int (snd a)) (link_counts idx) = ?ranked"
    by (rule js_sort_sort_key) auto
  have 1: "getMostLinkedNotes idx limit = take (nat limit) ?ranked"
    using assms by (simp add: getMostLinkedNotes_def linkCounts_eq s js_slice0_def)
  have 2: "mset ?ranked = mset (link_counts idx)" by simp
  have "sorted (map ?f ?ranked)" by (rule sorted_sort_key)
  then have 3: "sorted_wrt (\<lambda>p q. snd q \<le> snd p) ?ranked"
    by (simp add: sorted_map sorted_wrt_iff_nth_less)
  have 4: "\<forall>c. filter (\<lambda>p. snd p = c) ?ranked = filter (\<lambda>p. snd p = c) (link_counts idx)"
  proof
    fix c :: nat
    have "filter (\<lambda>p. ?f p = - int c) ?ranked = filter (\<lambda>p. ?f p = - int c) (link_counts idx)"
      by (rule sort_key_stable)
    then show "filter (\<lambda>p. snd p = c) ?ranked = filter (\<lambda>p. snd p = c) (link_counts idx)"
      by simp
  qed
  from 1 2 3 4 show ?thesis by blast
qed

theorem getMostLinkedNotes_ranking_witness:
  "is_map idx2 \<and> (0::int) \<le> 2
   \<and> getMostLinkedNotes idx2 2 = [(''b'', 1), (''c'', 1)]
   \<and> (\<exists>ranked. getMostLinkedNotes idx2 2 = take (nat 2) ranked
         \<and> mset ranked = mset (link_counts idx2)
         \<and> sorted_wrt (\<lambda>p q. snd q \<le> snd p) ranked
         \<and> (\<forall>c. filter (\<lambda>p. snd p = c) ranked = filter (\<lambda>p. snd p = c) (link_counts idx2)))"
proof -
  have a: "is_map idx2" by (simp add: is_map_def idx2_def)
  have b: "(0::int) \<le> 2" by simp
  have c: "getMostLinkedNotes idx2 2 = [(''b'', 1), (''c'', 1)]"
    by (simp add: getMostLinkedNotes_def idx2_def js_sort_def js_slice0_def)
  from getMostLinkedNotes_ranking[OF a b] a b c show ?thesis by simp
qed

text \<open>
  With two ids of equal count the result is in index order, here \<^verbatim>\<open>zeta\<close> before
  \<^verbatim>\<open>alpha\<close>, and not in the lexicographic order of the ids.
\<close>

theorem getMostLinkedNotes_lexical_tie_counterexample:
  "getMostLinkedNotes idx1 10 = [(''zeta'', 0), (''alpha'', 0)] \<and> ''alpha'' < ''zeta''"
  by (simp add: getMostLinkedNotes_def idx1_def js_sort_def js_slice0_def)


section \<open>Properties of the resolver\<close>

subsection \<open>The matrix holds the edit distances of the prefixes\<close>

lemma lev_rec_zero [simp]: "lev_rec a b i 0 = i"
  by (cases i) auto

lemma upt_one: "[0 ..< Suc 0] = [0]"
  by simp

lemma lev_up_i: "lev_rec a b (Suc i) j \<le> lev_rec a b i j + 1"
  by (cases j) auto

lemma lev_up_j: "lev_rec a b i (Suc j) \<le> lev_rec a b i j + 1"
  by (cases i) auto

lemma lev_down_i: "lev_rec a b i j \<le> lev_rec a b (Suc i) j + 1"
proof (induction j)
  case 0
  then show ?case by (cases i) auto
next
  case (Suc j)
  have "lev_rec a b i (Suc j) \<le> lev_rec a b i j + 1" by (rule lev_up_j)
  with Suc show ?case by (simp add: min_def)
qed

lemma lev_down_j: "lev_rec a b i j \<le> lev_rec a b i (Suc j) + 1"
proof (induction i)
  case 0
  then show ?case by simp
next
  case (Suc i)
  have "lev_rec a b (Suc i) j \<le> lev_rec a b i j + 1" by (rule lev_up_i)
  with Suc show ?case by (simp add: min_def)
qed

lemma lev_rec_cell:
  "lev_rec a b (Suc i) (Suc j) =
     (if b ! i = a ! j then lev_rec a b i j
      else min (lev_rec a b i j + 1) (min (lev_rec a b (Suc i) j + 1) (lev_rec a b i (Suc j) + 1)))"
  using lev_down_i[of a b i j] lev_down_j[of a b i j]
  by (simp add: min_def)

lemma fold_put_init: "fold (\<lambda>i m. put m i [i]) [0 ..< n] [] = map (\<lambda>i. [i]) [0 ..< n]"
  by (induction n) (simp_all add: put_def)

lemma rows_done_step:
  assumes inv: "rows_done a b (Suc i) c m" and i: "Suc i \<le> length b" and c: "c < length a"
  shows "rows_done a b (Suc i) (Suc c) (put2 m (Suc i) (Suc c) (lev_cell a b m (Suc i) (Suc c)))"
proof -
  from inv have len: "length m = Suc (length b)"
    and prev: "m ! i = map (lev_rec a b i) [0 ..< Suc (length a)]"
    and cur: "m ! Suc i = map (lev_rec a b (Suc i)) [0 ..< Suc c]"
    by (auto simp: rows_done_def)
  have p1: "m ! i ! c = lev_rec a b i c"
    unfolding prev using c by (simp del: upt_Suc)
  have p2: "m ! i ! Suc c = lev_rec a b i (Suc c)"
    unfolding prev using c by (simp del: upt_Suc)
  have p3: "m ! Suc i ! c = lev_rec a b (Suc i) c"
    unfolding cur by (simp del: upt_Suc)
  have v: "lev_cell a b m (Suc i) (Suc c) = lev_rec a b (Suc i) (Suc c)"
    by (simp add: lev_cell_def p1 p2 p3 lev_rec_cell del: lev_rec.simps)
  have l: "length (m ! Suc i) = Suc c" unfolding cur by simp
  have row: "put (m ! Suc i) (Suc c) (lev_rec a b (Suc i) (Suc c))
             = map (lev_rec a b (Suc i)) [0 ..< Suc (Suc c)]"
    using l by (simp add: put_def cur del: lev_rec.simps)
  show ?thesis
    using inv i unfolding rows_done_def put2_def v row
    by (auto simp: nth_list_update simp del: upt_Suc lev_rec.simps)
qed

lemma rows_done_inner:
  assumes "rows_done a b (Suc i) 0 m" "Suc i \<le> length b" "c \<le> length a"
  shows "rows_done a b (Suc i) c
           (fold (\<lambda>j m. put2 m (Suc i) j (lev_cell a b m (Suc i) j)) [1 ..< Suc c] m)"
  using assms(3)
proof (induction c)
  case 0
  then show ?case using assms(1) by simp
next
  case (Suc c)
  then have "rows_done a b (Suc i) c
           (fold (\<lambda>j m. put2 m (Suc i) j (lev_cell a b m (Suc i) j)) [1 ..< Suc c] m)"
    and "c < length a" by auto
  from rows_done_step[OF this(1) assms(2) this(2)] show ?case by simp
qed

lemma rows_done_next:
  assumes "rows_done a b i (length a) m" "i < length b"
  shows "rows_done a b (Suc i) 0 m"
  using assms unfolding rows_done_def
  by (auto simp: less_Suc_eq upt_one simp del: upt_Suc)

lemma rows_done_outer:
  assumes "rows_done a b 0 (length a) m" "r \<le> length b"
  shows "rows_done a b r (length a)
           (fold (\<lambda>i m. fold (\<lambda>j m. put2 m i j (lev_cell a b m i j)) [1 ..< Suc (length a)] m)
              [1 ..< Suc r] m)"
  using assms(2)
proof (induction r)
  case 0
  then show ?case using assms(1) by simp
next
  case (Suc r)
  then have "rows_done a b r (length a)
           (fold (\<lambda>i m. fold (\<lambda>j m. put2 m i j (lev_cell a b m i j)) [1 ..< Suc (length a)] m)
              [1 ..< Suc r] m)" and "r < length b" by auto
  from rows_done_next[OF this] have "rows_done a b (Suc r) 0
           (fold (\<lambda>i m. fold (\<lambda>j m. put2 m i j (lev_cell a b m i j)) [1 ..< Suc (length a)] m)
              [1 ..< Suc r] m)" .
  from rows_done_inner[OF this Suc.prems order_refl] show ?case by simp
qed

lemma rows_done_first_row:
  "c \<le> length a \<Longrightarrow>
   rows_done a b 0 c (fold (\<lambda>j m. put2 m 0 j j) [0 ..< Suc c] (map (\<lambda>i. [i]) [0 ..< Suc (length b)]))"
proof (induction c)
  case 0
  show ?case
    by (auto simp: rows_done_def put2_def put_def nth_list_update nth_Cons' upt_one
        simp del: upt_Suc)
next
  case (Suc c)
  then have ih: "rows_done a b 0 c (fold (\<lambda>j m. put2 m 0 j j) [0 ..< Suc c] (map (\<lambda>i. [i]) [0 ..< Suc (length b)]))"
    by simp
  define m where "m = fold (\<lambda>j m. put2 m 0 j j) [0 ..< Suc c] (map (\<lambda>i. [i]) [0 ..< Suc (length b)])"
  from ih have row: "m ! 0 = map (lev_rec a b 0) [0 ..< Suc c]" and len: "length m = Suc (length b)"
    and later: "\<forall>r. 0 < r \<and> r \<le> length b \<longrightarrow> m ! r = [r]"
    by (auto simp: rows_done_def m_def)
  have "put (m ! 0) (Suc c) (Suc c) = map (lev_rec a b 0) [0 ..< Suc (Suc c)]"
    unfolding row by (simp add: put_def)
  then have "rows_done a b 0 (Suc c) (put2 m 0 (Suc c) (Suc c))"
    using len later unfolding rows_done_def put2_def
    by (auto simp: nth_list_update simp del: upt_Suc)
  then show ?case by (simp add: m_def)
qed

lemma levenshteinDistance_edit_distance: "levenshteinDistance a b = edit_distance a b"
proof -
  have "rows_done a b 0 (length a) (fold (\<lambda>j m. put2 m 0 j j) [0 ..< Suc (length a)] (map (\<lambda>i. [i]) [0 ..< Suc (length b)]))"
    by (rule rows_done_first_row) simp
  from rows_done_outer[OF this order_refl]
  have "rows_done a b (length b) (length a) (lev_matrix a b)"
    by (simp add: lev_matrix_def fold_put_init Let_def del: upt_Suc)
  then have "lev_matrix a b ! length b = map (lev_rec a b (length b)) [0 ..< Suc (length a)]"
    by (simp add: rows_done_def)
  then show ?thesis
    by (simp add: levenshteinDistance_def edit_distance_def del: upt_Suc)
qed


subsection \<open>Suggestions for a link that does not resolve\<close>

lemma sort_key_pairs_aux:
  "sort_key snd (map (\<lambda>s. (s, D s)) xs) = map (\<lambda>s. (s, D s)) (sort_key D xs)"
proof (induction xs)
  case Nil
  then show ?case by simp
next
  case (Cons x xs)
  have "insort_key snd (x, D x) (map (\<lambda>s. (s, D s)) ys) = map (\<lambda>s. (s, D s)) (insort_key D x ys)" for ys
    by (induction ys) auto
  with Cons show ?case by simp
qed

lemma sort_key_pairs: "map fst (sort_key snd (map (\<lambda>s. (s, D s)) xs)) = sort_key D xs"
  by (simp add: sort_key_pairs_aux comp_def)

lemma ranked_pairs:
  "map fst (js_slice0 (js_sort (\<lambda>a b. int (snd a) - int (snd b))
      (filter (\<lambda>item. snd item \<le> (5::nat)) (map (\<lambda>s. (s, D s)) xs))) 5)
   = take 5 (sort_key D (filter (\<lambda>s. D s \<le> 5) xs))"
proof -
  have s: "js_sort (\<lambda>a b. int (snd a) - int (snd b)) ps = sort_key snd ps"
    for ps :: "('a \<times> nat) list"
    by (rule js_sort_sort_key) auto
  have f: "filter (\<lambda>item. snd item \<le> 5) (map (\<lambda>s. (s, D s)) xs)
           = map (\<lambda>s. (s, D s)) (filter (\<lambda>s. D s \<le> 5) xs)"
    by (simp add: filter_map comp_def)
  show ?thesis
    unfolding s f by (simp add: js_slice0_def take_map[symmetric] sort_key_pairs)
qed

lemma findSimilarNotes_ranked:
  "findSimilarNotes env t 5 = take 5 (sort_key (distance_to t) (close_candidates env t))"
proof -
  have "findSimilarNotes env t 5
        = map fst (js_slice0 (js_sort (\<lambda>a b. int (snd a) - int (snd b))
            (filter (\<lambda>item. snd item \<le> (5::nat))
               (map (\<lambda>s. (s, distance_to t s)) (candidates env)))) 5)"
    by (simp add: findSimilarNotes_def Let_def candidates_def distance_to_def
        levenshteinDistance_edit_distance)
  then show ?thesis
    by (simp only: ranked_pairs close_candidates_def)
qed

text \<open>
  C6. When the resolution of a target fails, \<^verbatim>\<open>resolveWikiLink\<close> returns at most five
  suggestions: the first five of a ranking that consists exactly of the candidate stems
  whose case-insensitive edit distance to the target is at most 5, in ascending order of
  that distance, stems of equal distance in corpus scan order. The distance is the
  textbook recurrence \<^const>\<open>edit_distance\<close>, which the matrix of the code computes.
\<close>

theorem resolveWikiLink_suggestions:
  assumes "\<not> exists (resolveWikiLink env t)"
  shows "\<exists>sugg ranked.
           suggestions (resolveWikiLink env t) = Some sugg
           \<and> length sugg \<le> 5 \<and> sugg = take 5 ranked
           \<and> mset ranked = mset (close_candidates env t)
           \<and> sorted (map (distance_to t) ranked)
           \<and> (\<forall>d. filter (\<lambda>s. distance_to t s = d) ranked
                   = filter (\<lambda>s. distance_to t s = d) (close_candidates env t))"
proof -
  let ?ranked = "sort_key (distance_to t) (close_candidates env t)"
  from assms have "suggestions (resolveWikiLink env t) = Some (findSimilarNotes env t 5)"
    by (simp add: resolveWikiLink_def Let_def split: if_splits)
  then have 1: "suggestions (resolveWikiLink env t) = Some (take 5 ?ranked)"
    by (simp add: findSimilarNotes_ranked)
  have 2: "length (take 5 ?ranked) \<le> 5" by simp
  have 3: "mset ?ranked = mset (close_candidates env t)" by simp
  have 4: "sorted (map (distance_to t) ?ranked)" by (rule sorted_sort_key)
  have 5: "\<forall>d. filter (\<lambda>s. distance_to t s = d) ?ranked
                   = filter (\<lambda>s. distance_to t s = d) (close_candidates env t)"
    by (simp add: sort_key_stable)
  from 1 2 3 4 5 show ?thesis by blast
qed

theorem resolveWikiLink_suggestions_witness:
  "\<not> exists (resolveWikiLink corpus0 ''gamma'')
   \<and> suggestions (resolveWikiLink corpus0 ''gamma'')
       = Some [''Gamut'', ''alpha'', ''beta'', ''delta'', ''gamma-rays'']
   \<and> map (distance_to ''gamma'') (candidates corpus0) = [4, 4, 16, 2, 5, 4]
   \<and> (\<exists>ranked. [''Gamut'', ''alpha'', ''beta'', ''delta'', ''gamma-rays''] = take 5 ranked
         \<and> mset ranked = mset (close_candidates corpus0 ''gamma'')
         \<and> sorted (map (distance_to ''gamma'') ranked))"
proof -
  have n: "findNoteByLink corpus0 ''gamma'' = None" by code_simp
  have a: "\<not> exists (resolveWikiLink corpus0 ''gamma'')"
    by (simp add: resolveWikiLink_def n truthy_def Let_def)
  have c: "candidates corpus0
           = [''alpha'', ''beta'', ''reading-list-2026'', ''Gamut'', ''gamma-rays'', ''delta'']"
    by code_simp
  have d: "distance_to ''gamma'' ''alpha'' = 4" "distance_to ''gamma'' ''beta'' = 4"
    "distance_to ''gamma'' ''reading-list-2026'' = 16" "distance_to ''gamma'' ''Gamut'' = 2"
    "distance_to ''gamma'' ''gamma-rays'' = 5" "distance_to ''gamma'' ''delta'' = 4"
    unfolding distance_to_def levenshteinDistance_edit_distance[symmetric] by code_simp+
  have cc: "close_candidates corpus0 ''gamma''
            = [''alpha'', ''beta'', ''Gamut'', ''gamma-rays'', ''delta'']"
    by (simp add: close_candidates_def c d)
  have s: "findSimilarNotes corpus0 ''gamma'' 5
           = [''Gamut'', ''alpha'', ''beta'', ''delta'', ''gamma-rays'']"
    by (simp add: findSimilarNotes_ranked cc d)
  have b: "suggestions (resolveWikiLink corpus0 ''gamma'')
       = Some [''Gamut'', ''alpha'', ''beta'', ''delta'', ''gamma-rays'']"
    by (simp add: resolveWikiLink_def n truthy_def Let_def s)
  have m: "map (distance_to ''gamma'') (candidates corpus0) = [4, 4, 16, 2, 5, 4]"
    by (simp add: c d)
  from resolveWikiLink_suggestions[OF a] obtain sugg ranked where
    r: "suggestions (resolveWikiLink corpus0 ''gamma'') = Some sugg" "sugg = take 5 ranked"
       "mset ranked = mset (close_candidates corpus0 ''gamma'')"
       "sorted (map (distance_to ''gamma'') ranked)" by blast
  from r(1) b have e: "sugg = [''Gamut'', ''alpha'', ''beta'', ''delta'', ''gamma-rays'']" by simp
  have t: "[''Gamut'', ''alpha'', ''beta'', ''delta'', ''gamma-rays''] = take 5 ranked"
    using r(2) unfolding e .
  have "\<exists>ranked. [''Gamut'', ''alpha'', ''beta'', ''delta'', ''gamma-rays''] = take 5 ranked
         \<and> mset ranked = mset (close_candidates corpus0 ''gamma'')
         \<and> sorted (map (distance_to ''gamma'') ranked)"
    by (rule exI[of _ ranked]) (intro conjI t r(3) r(4))
  then show ?thesis by (intro conjI a b m)
qed


section \<open>Properties of the cache\<close>

text \<open>
  C2 (as amended). For a cache file that parses, with a timestamp that is a time and an
  index that is an array: \<^verbatim>\<open>isCacheValid\<close> returns true exactly when the age of the record
  is at most one hour and the number of cached entries equals the number of markdown
  files of the corpus; it does not look at the format version. The version is checked by
  \<^verbatim>\<open>loadCache\<close>, which returns true exactly when it is \<^verbatim>\<open>1.0.0\<close>. So
  \<^verbatim>\<open>loadOrBuildLinkIndex\<close>, which asks both, returns the freshly built index whenever one
  of the three conditions fails.
\<close>

theorem cache_accepted:
  assumes "timestamp d = Some t" "index d = Some cached"
  shows "(isCacheValid env now (Parsed d) \<longleftrightarrow>
            now - t \<le> 3600000 \<and> length cached = length (getAllMarkdownFiles env))
         \<and> (fst (loadCache (Parsed d) idx) \<longleftrightarrow> version d = Some ''1.0.0'')
         \<and> (\<not> (version d = Some ''1.0.0'' \<and> now - t \<le> 3600000
                 \<and> length cached = length (getAllMarkdownFiles env))
              \<longrightarrow> loadOrBuildLinkIndex env now (Some (Parsed d)) built = built)"
  using assms
  by (auto simp: isCacheValid_def loadCache_def loadOrBuildLinkIndex_def maxAge_def
      split: prod.splits bool.splits)

text \<open>
  A cache one hour old is valid and loads; one millisecond later it is not valid.
\<close>

theorem cache_accepted_witness:
  "isCacheValid corpus1 1767229200000
     (Parsed \<lparr>version = Some ''1.0.0'', timestamp = Some 1767225600000, index = Some idx1\<rparr>)
   \<and> fst (loadCache
       (Parsed \<lparr>version = Some ''1.0.0'', timestamp = Some 1767225600000, index = Some idx1\<rparr>) [])
   \<and> \<not> isCacheValid corpus1 1767229200001
     (Parsed \<lparr>version = Some ''1.0.0'', timestamp = Some 1767225600000, index = Some idx1\<rparr>)"
proof -
  let ?d = "\<lparr>version = Some ''1.0.0'', timestamp = Some 1767225600000, index = Some idx1\<rparr>"
  have a: "timestamp ?d = Some 1767225600000" "index ?d = Some idx1" by simp_all
  have f: "length idx1 = length (getAllMarkdownFiles corpus1)"
    by (simp add: idx1_def corpus1_def corpus0_def getAllMarkdownFiles_def)
  from cache_accepted[OF a, of corpus1 1767229200000 "[]"]
       cache_accepted[OF a, of corpus1 1767229200001 "[]"] f
  show ?thesis by simp
qed

text \<open>
  A record of another format version, one minute old and with the right number of
  entries: \<^verbatim>\<open>isCacheValid\<close> returns true.
\<close>

theorem isCacheValid_version_counterexample:
  "isCacheValid corpus1 1767225660000
     (Parsed \<lparr>version = Some ''0.9.0'', timestamp = Some 1767225600000, index = Some idx1\<rparr>)
   \<and> version \<lparr>version = Some ''0.9.0'', timestamp = Some 1767225600000, index = Some idx1\<rparr>
       \<noteq> Some ''1.0.0''"
  by (simp add: isCacheValid_def maxAge_def idx1_def corpus1_def corpus0_def
      getAllMarkdownFiles_def)

end
